theory Spec2Isabelle
  imports Main "HOL-Library.AList"
begin

section \<open>The setting registry of packages/coreutils/src/settingregistry.ts\<close>

text \<open>
  The registry keeps plugin records that it shares with its callers and with the datastore:
  \<open>set\<close>, \<open>upload\<close>, \<open>annotate\<close> and the handler of \<open>fetch\<close> store the object they are
  given, not a copy. The model therefore has an explicit store of JavaScript objects, and a
  JSON value is a primitive or the address of an object or array in that store.

  Conventions of the model:
  \<^item> numbers are integers (the code only tests a number for being zero);
  \<^item> a property name is looked up among the own properties of an object (names inherited
    from \<open>Object.prototype\<close> are not modelled); \<open>undefined\<close> is \<open>None\<close>;
  \<^item> \<open>JSONExt.deepCopy\<close>, \<open>Signal\<close> and \<open>PromiseDelegate\<close> belong to the phosphor
    libraries; they are modelled by their documented behaviour;
  \<^item> the datastore is a collaborator: the model logs each call of \<open>fetch\<close> and \<open>save\<close>,
    and the promise such a call returns is settled later by an event of the environment;
  \<^item> the gate is the promise \<open>_ready\<close>, which \<open>setDB\<close> resolves.
\<close>

subsection \<open>Values and the object store\<close>

type_synonym addr = nat

datatype level = User | System

fun level_name :: "level \<Rightarrow> string" where
  "level_name User = ''user''"
| "level_name System = ''system''"

datatype jval = JNull | JBool bool | JNum int | JStr string | JRef addr

datatype cell = CObj "(string \<times> jval) list" | CArr "jval list"

text \<open>A value that is independent of the store: what a deep copy hands to a caller.\<close>

datatype json = TNull | TBool bool | TNum int | TStr string
  | TArr "json list" | TObj "(string \<times> json) list"

text \<open>
  \<open>Failure n\<close> is a failure of the datastore, with its payload. \<open>OutsideModel\<close> marks a
  state that the declared TypeScript types exclude (an array or a primitive where the type
  is an object map, a record whose \<open>id\<close> is no string, an address outside the store): the
  model stops there instead of following JavaScript.
\<close>

datatype error = AlreadyHasDatastore | TypeError | RangeError | OutsideModel | Failure nat

definition cell_at :: "cell list \<Rightarrow> addr \<Rightarrow> cell option" where
  "cell_at h a = (if a < length h then Some (h ! a) else None)"

text \<open>JavaScript truthiness of a value that may be \<open>undefined\<close>.\<close>

fun truthy :: "jval option \<Rightarrow> bool" where
  "truthy None = False"
| "truthy (Some JNull) = False"
| "truthy (Some (JBool b)) = b"
| "truthy (Some (JNum n)) = (n \<noteq> 0)"
| "truthy (Some (JStr s)) = (s \<noteq> [])"
| "truthy (Some (JRef a)) = True"

text \<open>\<open>x[k]\<close>, \<open>x[k] = v\<close> and \<open>delete x[k]\<close>.\<close>

fun rd :: "cell list \<Rightarrow> jval option \<Rightarrow> string \<Rightarrow> error + jval option" where
  "rd h None k = Inl TypeError"
| "rd h (Some JNull) k = Inl TypeError"
| "rd h (Some (JRef a)) k =
     (case cell_at h a of Some (CObj fs) \<Rightarrow> Inr (map_of fs k) | _ \<Rightarrow> Inl OutsideModel)"
| "rd h (Some _) k = Inl OutsideModel"

fun wr :: "cell list \<Rightarrow> jval option \<Rightarrow> string \<Rightarrow> jval \<Rightarrow> error + cell list" where
  "wr h None k v = Inl TypeError"
| "wr h (Some JNull) k v = Inl TypeError"
| "wr h (Some (JRef a)) k v =
     (case cell_at h a of Some (CObj fs) \<Rightarrow> Inr (h[a := CObj (AList.update k v fs)])
      | _ \<Rightarrow> Inl OutsideModel)"
| "wr h (Some _) k v = Inl OutsideModel"

fun del :: "cell list \<Rightarrow> jval option \<Rightarrow> string \<Rightarrow> error + cell list" where
  "del h None k = Inl TypeError"
| "del h (Some JNull) k = Inl TypeError"
| "del h (Some (JRef a)) k =
     (case cell_at h a of Some (CObj fs) \<Rightarrow> Inr (h[a := CObj (AList.delete k fs)])
      | _ \<Rightarrow> Inl OutsideModel)"
| "del h (Some _) k = Inl OutsideModel"

text \<open>
  The tree below a value. The list \<open>vis\<close> holds the addresses on the path from the root:
  meeting one of them again is a cycle, on which the recursion of \<open>JSONExt.deepCopy\<close> does
  not end.
\<close>

function reify :: "addr list \<Rightarrow> cell list \<Rightarrow> jval \<Rightarrow> json option" where
  "reify vis h JNull = Some TNull"
| "reify vis h (JBool b) = Some (TBool b)"
| "reify vis h (JNum n) = Some (TNum n)"
| "reify vis h (JStr s) = Some (TStr s)"
| "reify vis h (JRef a) =
     (if a < length h \<and> a \<notin> set vis then
        (case h ! a of
           CArr vs \<Rightarrow> map_option TArr (those (map (reify (a # vis) h) vs))
         | CObj fs \<Rightarrow> map_option TObj
             (those (map (\<lambda>kv. map_option (Pair (fst kv)) (reify (a # vis) h (snd kv))) fs)))
      else None)"
  by pat_completeness auto

termination
proof (relation "measure (\<lambda>(vis, h, v). length h - card (set vis \<inter> {..<length h}))")
  have dec: "length h - card (set (a # vis) \<inter> {..<length h})
      < length h - card (set vis \<inter> {..<length h})"
    if a: "a < length h \<and> a \<notin> set vis" for vis :: "addr list" and h :: "cell list" and a
  proof -
    have fin: "finite (set vis \<inter> {..<length h})" by simp
    have ins: "set (a # vis) \<inter> {..<length h} = insert a (set vis \<inter> {..<length h})"
      using a by auto
    have "card (insert a (set vis \<inter> {..<length h})) \<le> card {..<length h}"
      using a by (intro card_mono) auto
    then have "card (set vis \<inter> {..<length h}) < length h"
      using a fin by simp
    then show ?thesis
      using a fin by (simp only: ins) simp
  qed
  show "wf (measure (\<lambda>(vis, h, v). length h - card (set vis \<inter> {..<length h})))"
    by simp
  show "((a # vis, h, snd x), vis, h, JRef a)
      \<in> measure (\<lambda>(vis, h, v). length h - card (set vis \<inter> {..<length h}))"
    if "a < length h \<and> a \<notin> set vis"
    for vis :: "addr list" and h :: "cell list" and a and x :: "string \<times> jval"
    using dec [OF that] by simp
  show "((a # vis, h, x), vis, h, JRef a)
      \<in> measure (\<lambda>(vis, h, v). length h - card (set vis \<inter> {..<length h}))"
    if "a < length h \<and> a \<notin> set vis"
    for vis :: "addr list" and h :: "cell list" and a and x :: jval
    using dec [OF that] by simp
qed

text \<open>
  \<open>JSONExt.deepCopy(v)\<close>: a fresh structure equal to the tree below \<open>v\<close>. It is handed
  out as a \<open>json\<close> tree, which nothing in the store refers to. A cycle overflows the stack
  of the recursive copy, which JavaScript reports as a RangeError; an address outside the
  store, which JavaScript cannot produce, is treated alike.
\<close>

definition deepCopy :: "cell list \<Rightarrow> jval \<Rightarrow> error + json" where
  "deepCopy h v = (case reify [] h v of None \<Rightarrow> Inl RangeError | Some t \<Rightarrow> Inr t)"

subsection \<open>Promises, continuations and the state of the registry\<close>

text \<open>
  A call of the datastore is logged with its arguments; \<open>save\<close> receives the cached record
  itself. A \<open>Settings\<close> object holds the copied content and the plugin name.
\<close>

datatype dscall = Fetch string | Save string "jval option"

record settings =
  content :: json
  plugin :: string

datatype result = RVoid | RValue json | RView settings | RRecord jval

text \<open>
  The handlers the code passes to \<open>then\<close>:
  \<open>KLoad p\<close> is \<open>() => this.load(plugin)\<close>,
  \<open>KInstall p\<close> is the handler of \<open>fetch\<close> in \<open>load\<close>,
  \<open>KGet\<close> and \<open>KSet\<close> are the retries of \<open>get\<close> and \<open>set\<close>,
  \<open>KEmit p\<close> is \<open>() => { this._pluginChanged.emit(plugin); }\<close>.
\<close>

datatype kont =
    KLoad string
  | KInstall string
  | KGet string string level
  | KSet string string jval level
  | KEmit string

text \<open>
  What a pending promise waits for: the readiness gate \<open>_ready\<close>, the datastore call with
  the given index in the log, or nothing (a promise that is resolved already, whose handlers
  run in a later microtask).
\<close>

datatype wait = WReady | WCall nat | WNow result

text \<open>
  What a method call yields: an exception thrown during the call, or the promise it
  returns, which is resolved, rejected, or pending with its chain of handlers.
\<close>

datatype outcome = Threw error | Resolved result | Rejected error | Pending wait "kont list"

record state =
  heap :: "cell list"
  plugins :: "(string \<times> jval) list"
  annotations :: "(string \<times> (string \<times> jval) list) list"
  datastore :: "nat option"
  ready :: bool
  slots :: "nat list"
  delivered :: "(nat \<times> string) list"
  calls :: "dscall list"

fun bind_err :: "error + 'a \<Rightarrow> ('a \<Rightarrow> error + 'b) \<Rightarrow> error + 'b" where
  "bind_err (Inl e) f = Inl e"
| "bind_err (Inr x) f = f x"

text \<open>\<open>promise.then(handlers)\<close> on the promise a call has returned.\<close>

fun chain :: "outcome \<times> state \<Rightarrow> kont list \<Rightarrow> outcome \<times> state" where
  "chain (Pending w ks0, s) ks = (Pending w (ks0 @ ks), s)"
| "chain (Resolved r, s) ks = (Pending (WNow r) ks, s)"
| "chain (Rejected e, s) ks = (Rejected e, s)"
| "chain (Threw e, s) ks = (Threw e, s)"

text \<open>
  The signal \<open>_pluginChanged\<close>: \<open>emit\<close> calls every slot connected at that moment;
  \<open>delivered\<close> records each call of a slot with its argument.
\<close>

definition emit :: "state \<Rightarrow> string \<Rightarrow> state" where
  "emit s p = s\<lparr>delivered := delivered s @ map (\<lambda>sl. (sl, p)) (slots s)\<rparr>"

definition connect :: "state \<Rightarrow> nat \<Rightarrow> state" where
  "connect s sl = (if sl \<in> set (slots s) then s else s\<lparr>slots := slots s @ [sl]\<rparr>)"

definition disconnect :: "state \<Rightarrow> nat \<Rightarrow> state" where
  "disconnect s sl = s\<lparr>slots := removeAll sl (slots s)\<rparr>"

subsection \<open>The methods of SettingRegistry\<close>

text \<open>\<open>_save\<close>: \<open>this._datastore.save(plugin, this._plugins[plugin]).then(emit)\<close>.\<close>

definition save :: "state \<Rightarrow> string \<Rightarrow> outcome \<times> state" where
  "save s p =
     (case datastore s of
        None \<Rightarrow> (Threw TypeError, s)
      | Some d \<Rightarrow>
          (Pending (WCall (length (calls s))) [KEmit p],
           s\<lparr>calls := calls s @ [Save p (map_of (plugins s) p)]\<rparr>))"

text \<open>\<open>copy(annotations[plugin] || null)\<close>.\<close>

definition copy_annotations :: "state \<Rightarrow> string \<Rightarrow> error + json" where
  "copy_annotations s p =
     (case map_of (annotations s) p of
        None \<Rightarrow> Inr TNull
      | Some tbl \<Rightarrow>
          (case those (map (\<lambda>kv. map_option (Pair (fst kv)) (reify [] (heap s) (snd kv))) tbl) of
             None \<Rightarrow> Inl RangeError
           | Some fs \<Rightarrow> Inr (TObj fs)))"

text \<open>
  \<open>content = copy(record); content.annotations = copy(annotations[plugin] || null);
  new Settings({ content, plugin, registry })\<close>.
\<close>

definition build_view :: "state \<Rightarrow> string \<Rightarrow> jval \<Rightarrow> error + settings" where
  "build_view s p rcd =
     bind_err (deepCopy (heap s) rcd) (\<lambda>c.
     bind_err (copy_annotations s p) (\<lambda>a.
       (case c of
          TObj fs \<Rightarrow> Inr \<lparr>content = TObj (AList.update ''annotations'' a fs), plugin = p\<rparr>
        | TArr ts \<Rightarrow> Inl OutsideModel
        | _ \<Rightarrow> Inl TypeError)))"

definition load :: "state \<Rightarrow> string \<Rightarrow> bool \<Rightarrow> outcome \<times> state" where
  "load s p reload =
     (case (if reload then None else map_of (plugins s) p) of
        Some rcd \<Rightarrow>
          (case build_view s p rcd of
             Inl e \<Rightarrow> (Threw e, s)
           | Inr view \<Rightarrow> (Resolved (RView view), s))
      | None \<Rightarrow>
          (case datastore s of
             Some d \<Rightarrow>
               (Pending (WCall (length (calls s))) [KInstall p],
                s\<lparr>calls := calls s @ [Fetch p]\<rparr>)
           | None \<Rightarrow> (Pending WReady [KLoad p], s)))"

text \<open>The handler of \<open>fetch\<close>: \<open>plugins[result.id] = result\<close>, then the view.\<close>

definition install :: "state \<Rightarrow> string \<Rightarrow> result \<Rightarrow> outcome \<times> state" where
  "install s p r =
     (case r of
        RRecord rcd \<Rightarrow>
          (case rd (heap s) (Some rcd) ''id'' of
             Inl e \<Rightarrow> (Threw e, s)
           | Inr (Some (JStr i)) \<Rightarrow>
               (let s' = s\<lparr>plugins := AList.update i rcd (plugins s)\<rparr>
                in case build_view s' p rcd of
                     Inl e \<Rightarrow> (Threw e, s')
                   | Inr view \<Rightarrow> (Resolved (RView view), s'))
           | Inr _ \<Rightarrow> (Threw OutsideModel, s))
      | _ \<Rightarrow> (Threw OutsideModel, s))"

text \<open>\<open>x && x[k]\<close>.\<close>

definition and_prop :: "cell list \<Rightarrow> jval option \<Rightarrow> string \<Rightarrow> error + jval option" where
  "and_prop h x k = (if truthy x then rd h x k else Inr x)"

text \<open>
  \<open>bundle = plugins[plugin] && plugins[plugin].data;
  value = bundle && bundle[level] && bundle[level][key] || null\<close>.
\<close>

definition stored_value :: "cell list \<Rightarrow> jval \<Rightarrow> level \<Rightarrow> string \<Rightarrow> error + jval" where
  "stored_value h rcd lvl k =
     bind_err (and_prop h (Some rcd) ''data'') (\<lambda>bundle.
     bind_err (and_prop h bundle (level_name lvl)) (\<lambda>m.
     bind_err (and_prop h m k) (\<lambda>x.
       Inr (case x of Some v \<Rightarrow> if truthy x then v else JNull | None \<Rightarrow> JNull))))"

definition get :: "state \<Rightarrow> string \<Rightarrow> string \<Rightarrow> level \<Rightarrow> outcome \<times> state" where
  "get s p k lvl =
     (case map_of (plugins s) p of
        Some rcd \<Rightarrow>
          (case bind_err (stored_value (heap s) rcd lvl k) (deepCopy (heap s)) of
             Inl e \<Rightarrow> (Threw e, s)
           | Inr t \<Rightarrow> (Resolved (RValue t), s))
      | None \<Rightarrow> chain (load s p False) [KGet p k lvl])"

text \<open>
  The body of \<open>remove\<close> after the cache test:
  \<open>bundle = plugins[plugin].data; if (!bundle[level]) return; delete bundle[level][key]\<close>.
  \<open>None\<close> is the early return.
\<close>

definition delete_key :: "cell list \<Rightarrow> jval \<Rightarrow> level \<Rightarrow> string \<Rightarrow> error + cell list option" where
  "delete_key h rcd lvl k =
     bind_err (rd h (Some rcd) ''data'') (\<lambda>bundle.
     bind_err (rd h bundle (level_name lvl)) (\<lambda>m.
       if \<not> truthy m then Inr None
       else bind_err (del h m k) (\<lambda>h'. Inr (Some h'))))"

definition remove :: "state \<Rightarrow> string \<Rightarrow> string \<Rightarrow> level \<Rightarrow> outcome \<times> state" where
  "remove s p k lvl =
     (case map_of (plugins s) p of
        None \<Rightarrow> (Resolved RVoid, s)
      | Some rcd \<Rightarrow>
          (case delete_key (heap s) rcd lvl k of
             Inl e \<Rightarrow> (Threw e, s)
           | Inr None \<Rightarrow> (Resolved RVoid, s)
           | Inr (Some h') \<Rightarrow> save (s\<lparr>heap := h'\<rparr>) p))"

text \<open>
  The body of \<open>set\<close> after the cache test:
  \<open>bundle = plugins[plugin].data; if (!bundle[level]) { bundle[level] = {}; }
  bundle[level][key] = value\<close>. The new object gets the next free address.
\<close>

definition write_key :: "cell list \<Rightarrow> jval \<Rightarrow> level \<Rightarrow> string \<Rightarrow> jval \<Rightarrow> error + cell list" where
  "write_key h rcd lvl k v =
     bind_err (rd h (Some rcd) ''data'') (\<lambda>bundle.
     bind_err (rd h bundle (level_name lvl)) (\<lambda>m.
     bind_err (if \<not> truthy m
               then wr (h @ [CObj []]) bundle (level_name lvl) (JRef (length h))
               else Inr h) (\<lambda>h1.
     bind_err (rd h1 bundle (level_name lvl)) (\<lambda>m1.
       wr h1 m1 k v))))"

definition set_setting ::
  "state \<Rightarrow> string \<Rightarrow> string \<Rightarrow> jval \<Rightarrow> level \<Rightarrow> outcome \<times> state" where
  "set_setting s p k v lvl =
     (case map_of (plugins s) p of
        None \<Rightarrow> chain (load s p False) [KSet p k v lvl]
      | Some rcd \<Rightarrow>
          (case write_key (heap s) rcd lvl k v of
             Inl e \<Rightarrow> (Threw e, s)
           | Inr h' \<Rightarrow> save (s\<lparr>heap := h'\<rparr>) p))"

definition annotate :: "state \<Rightarrow> string \<Rightarrow> string \<Rightarrow> jval \<Rightarrow> state" where
  "annotate s p k a =
     emit (s\<lparr>annotations :=
              AList.update p
                (AList.update k a (case map_of (annotations s) p of None \<Rightarrow> [] | Some tbl \<Rightarrow> tbl))
                (annotations s)\<rparr>) p"

text \<open>\<open>setDB\<close>; a datastore is an object, identified here by a number.\<close>

definition setDB :: "state \<Rightarrow> nat \<Rightarrow> error + state" where
  "setDB s d =
     (case datastore s of
        Some d0 \<Rightarrow> Inl AlreadyHasDatastore
      | None \<Rightarrow> Inr (s\<lparr>datastore := Some d, ready := True\<rparr>))"

definition upload :: "state \<Rightarrow> jval \<Rightarrow> outcome \<times> state" where
  "upload s rcd =
     (case rd (heap s) (Some rcd) ''id'' of
        Inl e \<Rightarrow> (Threw e, s)
      | Inr (Some (JStr i)) \<Rightarrow> save (s\<lparr>plugins := AList.update i rcd (plugins s)\<rparr>) i
      | Inr _ \<Rightarrow> (Threw OutsideModel, s))"

subsection \<open>Running the handlers of a promise\<close>

fun run_kont :: "kont \<Rightarrow> result \<Rightarrow> state \<Rightarrow> outcome \<times> state" where
  "run_kont (KLoad p) r s = load s p False"
| "run_kont (KInstall p) r s = install s p r"
| "run_kont (KGet p k lvl) r s = get s p k lvl"
| "run_kont (KSet p k v lvl) r s = set_setting s p k v lvl"
| "run_kont (KEmit p) r s = (Resolved RVoid, emit s p)"

text \<open>
  The chain runs until a handler returns a pending promise, which the rest of the chain
  then waits for. An exception in a handler rejects the promise, and a rejection skips the
  handlers that follow (the code passes no rejection handler anywhere). The additional
  microtask turns that JavaScript takes to adopt the promise a handler returns are not
  modelled.
\<close>

fun run_konts :: "kont list \<Rightarrow> result \<Rightarrow> state \<Rightarrow> outcome \<times> state" where
  "run_konts [] r s = (Resolved r, s)"
| "run_konts (k # ks) r s =
     (case run_kont k r s of
        (Resolved r', s') \<Rightarrow> run_konts ks r' s'
      | (Threw e, s') \<Rightarrow> (Rejected e, s')
      | (Rejected e, s') \<Rightarrow> (Rejected e, s')
      | (Pending w ks', s') \<Rightarrow> (Pending w (ks' @ ks), s'))"

text \<open>The promise a pending call waits for is settled: rejected, or resolved with a value.\<close>

fun settle :: "error + result \<Rightarrow> kont list \<Rightarrow> state \<Rightarrow> outcome \<times> state" where
  "settle (Inl e) ks s = (Rejected e, s)"
| "settle (Inr r) ks s = run_konts ks r s"

subsection \<open>The registry among its callers\<close>

text \<open>
  The callers, the datastore and the scheduler act on the registry through events: a call
  of a method, the settling of the promise of a datastore call, a microtask that runs the
  handlers of a promise that is ready for it, a slot connecting to or disconnecting from
  the signal, and the creation or mutation of an object by code outside the registry.
  \<open>tasks\<close> holds the outcome of every method call, in call order; for \<open>annotate\<close> and
  \<open>setDB\<close>, which return no promise, \<open>Resolved RVoid\<close> stands for a normal return.
\<close>

datatype call =
    CLoad string bool
  | CGet string string level
  | CSet string string jval level
  | CRemove string string level
  | CUpload jval
  | CAnnotate string string jval
  | CSetDB nat

datatype event =
    Call call
  | Settle nat "error + result"
  | Microtask
  | Connect nat
  | Disconnect nat
  | Alloc cell
  | Mutate addr cell

record sys =
  reg :: state
  tasks :: "outcome list"

definition init :: state where
  "init = \<lparr>heap = [], plugins = [], annotations = [], datastore = None, ready = False,
           slots = [], delivered = [], calls = []\<rparr>"

definition init_sys :: sys where
  "init_sys = \<lparr>reg = init, tasks = []\<rparr>"

fun perform :: "call \<Rightarrow> state \<Rightarrow> outcome \<times> state" where
  "perform (CLoad p reload) s = load s p reload"
| "perform (CGet p k lvl) s = get s p k lvl"
| "perform (CSet p k v lvl) s = set_setting s p k v lvl"
| "perform (CRemove p k lvl) s = remove s p k lvl"
| "perform (CUpload rcd) s = upload s rcd"
| "perform (CAnnotate p k a) s = (Resolved RVoid, annotate s p k a)"
| "perform (CSetDB d) s =
     (case setDB s d of Inl e \<Rightarrow> (Threw e, s) | Inr s' \<Rightarrow> (Resolved RVoid, s'))"

fun first_index :: "('a \<Rightarrow> bool) \<Rightarrow> 'a list \<Rightarrow> nat option" where
  "first_index P [] = None"
| "first_index P (x # xs) = (if P x then Some 0 else map_option Suc (first_index P xs))"

fun waits_on :: "nat \<Rightarrow> outcome \<Rightarrow> bool" where
  "waits_on i (Pending (WCall j) ks) = (i = j)"
| "waits_on i out = False"

text \<open>A promise whose handlers a microtask may run: the gate once it is open, or \<open>WNow\<close>.\<close>

fun runnable :: "state \<Rightarrow> outcome \<Rightarrow> bool" where
  "runnable s (Pending WReady ks) = ready s"
| "runnable s (Pending (WNow r) ks) = True"
| "runnable s out = False"

fun konts_of :: "outcome \<Rightarrow> kont list" where
  "konts_of (Pending w ks) = ks"
| "konts_of out = []"

fun input_of :: "outcome \<Rightarrow> result" where
  "input_of (Pending (WNow r) ks) = r"
| "input_of out = RVoid"

definition resume :: "nat \<Rightarrow> error + result \<Rightarrow> sys \<Rightarrow> sys" where
  "resume t res \<sigma> =
     (case settle res (konts_of (tasks \<sigma> ! t)) (reg \<sigma>) of
        (out, s') \<Rightarrow> \<lparr>reg = s', tasks = (tasks \<sigma>)[t := out]\<rparr>)"

fun step :: "event \<Rightarrow> sys \<Rightarrow> sys" where
  "step (Call c) \<sigma> =
     (case perform c (reg \<sigma>) of (out, s') \<Rightarrow> \<lparr>reg = s', tasks = tasks \<sigma> @ [out]\<rparr>)"
| "step (Settle i res) \<sigma> =
     (case first_index (waits_on i) (tasks \<sigma>) of
        None \<Rightarrow> \<sigma>
      | Some t \<Rightarrow> resume t res \<sigma>)"
| "step Microtask \<sigma> =
     (case first_index (runnable (reg \<sigma>)) (tasks \<sigma>) of
        None \<Rightarrow> \<sigma>
      | Some t \<Rightarrow> resume t (Inr (input_of (tasks \<sigma> ! t))) \<sigma>)"
| "step (Connect sl) \<sigma> = \<sigma>\<lparr>reg := connect (reg \<sigma>) sl\<rparr>"
| "step (Disconnect sl) \<sigma> = \<sigma>\<lparr>reg := disconnect (reg \<sigma>) sl\<rparr>"
| "step (Alloc c) \<sigma> = \<sigma>\<lparr>reg := (reg \<sigma>)\<lparr>heap := heap (reg \<sigma>) @ [c]\<rparr>\<rparr>"
| "step (Mutate a c) \<sigma> = \<sigma>\<lparr>reg := (reg \<sigma>)\<lparr>heap := (heap (reg \<sigma>))[a := c]\<rparr>\<rparr>"

fun run :: "event list \<Rightarrow> sys \<Rightarrow> sys" where
  "run [] \<sigma> = \<sigma>"
| "run (e # es) \<sigma> = run es (step e \<sigma>)"

subsection \<open>Observations and example states\<close>


text \<open>\<open>view.content.annotations[k]\<close> of a settings object.\<close>

definition view_annotation :: "settings \<Rightarrow> string \<Rightarrow> json option" where
  "view_annotation view k =
     (case content view of
        TObj fs \<Rightarrow>
          (case map_of fs ''annotations'' of
             Some (TObj afs) \<Rightarrow> map_of afs k
           | _ \<Rightarrow> None)
      | _ \<Rightarrow> None)"

text \<open>
  A store with the record of \<open>pkg.a\<close> (objects 0 to 2), a record of \<open>pkg.b\<close> whose
  \<open>data\<close> is \<open>null\<close> (object 3), an annotation (object 4) and a value that a caller holds
  (object 5); and a registry that has a datastore, both records cached and one slot
  connected.
\<close>

definition ex_heap :: "cell list" where
  "ex_heap =
     [CObj [(''fontSize'', JNum 12)],
      CObj [(''user'', JRef 0)],
      CObj [(''id'', JStr ''pkg.a''), (''data'', JRef 1)],
      CObj [(''id'', JStr ''pkg.b''), (''data'', JNull)],
      CObj [(''label'', JStr ''Size'')],
      CObj [(''x'', JNum 1)]]"

definition ex_state :: state where
  "ex_state =
     \<lparr>heap = ex_heap, plugins = [(''pkg.a'', JRef 2), (''pkg.b'', JRef 3)], annotations = [],
      datastore = Some 0, ready = True, slots = [7], delivered = [], calls = []\<rparr>"

text \<open>The same store before anything is cached, with a datastore and without.\<close>

definition ex_fresh :: state where
  "ex_fresh =
     \<lparr>heap = ex_heap, plugins = [], annotations = [],
      datastore = Some 0, ready = True, slots = [7], delivered = [], calls = []\<rparr>"

definition ex_unattached :: sys where
  "ex_unattached =
     \<lparr>reg = \<lparr>heap = ex_heap, plugins = [], annotations = [],
              datastore = None, ready = False, slots = [7], delivered = [], calls = []\<rparr>,
      tasks = []\<rparr>"

text \<open>The example registries among their callers, with no call made yet.\<close>

definition ex_sys :: sys where
  "ex_sys = \<lparr>reg = ex_state, tasks = []\<rparr>"

definition ex_fresh_sys :: sys where
  "ex_fresh_sys = \<lparr>reg = ex_fresh, tasks = []\<rparr>"

text \<open>
  Two states have the same gate when they agree on the datastore and on \<open>_ready\<close>. The
  wait of a promise is logged when the datastore call it waits for has been made.
\<close>

definition same_gate :: "state \<Rightarrow> state \<Rightarrow> bool" where
  "same_gate s s' \<longleftrightarrow> datastore s' = datastore s \<and> ready s' = ready s"

fun logged :: "outcome \<times> state \<Rightarrow> bool" where
  "logged (Pending (WCall i) ks, s) = (i < length (calls s))"
| "logged (out, s) = True"

definition waits_logged :: "sys \<Rightarrow> bool" where
  "waits_logged \<sigma> \<longleftrightarrow> (\<forall>out \<in> set (tasks \<sigma>). logged (out, reg \<sigma>))"

text \<open>A step is quiet when it delivers nothing and leaves the connected slots alone.\<close>

definition quiet :: "state \<Rightarrow> state \<Rightarrow> bool" where
  "quiet s s' \<longleftrightarrow> delivered s' = delivered s \<and> slots s' = slots s"

section \<open>Properties\<close>

subsection \<open>The store\<close>


lemma rd_Inr_iff:
  "rd h x k = Inr y \<longleftrightarrow>
     (\<exists>a fs. x = Some (JRef a) \<and> a < length h \<and> h ! a = CObj fs \<and> y = map_of fs k)"
proof (cases x)
  case None
  then show ?thesis by simp
next
  case (Some v)
  then show ?thesis
    by (cases v) (auto simp: cell_at_def split: cell.splits)
qed

lemma map_of_those_map:
  "those (map (\<lambda>kv. map_option (Pair (fst kv)) (f (snd kv))) tbl) = Some fs
     \<Longrightarrow> map_of fs k = Option.bind (map_of tbl k) f"
proof (induction tbl arbitrary: fs)
  case Nil
  then show ?case by simp
next
  case (Cons kv tbl)
  then show ?case
    by (cases kv) (auto split: option.splits)
qed

lemma rd_obj:
  "a < length h \<Longrightarrow> h ! a = CObj fs \<Longrightarrow> rd h (Some (JRef a)) k = Inr (map_of fs k)"
  by (simp add: cell_at_def)


lemma del_obj:
  "a < length h \<Longrightarrow> h ! a = CObj fs
     \<Longrightarrow> del h (Some (JRef a)) k = Inr (h[a := CObj (AList.delete k fs)])"
  by (simp add: cell_at_def)



lemma delete_then_read:
  assumes d: "rd h (Some rcd) ''data'' = Inr (Some (JRef b))"
    and l: "rd h (Some (JRef b)) (level_name lvl) = Inr (Some (JRef m))"
    and m: "cell_at h m = Some (CObj mf)" "JRef m \<noteq> rcd" "m \<noteq> b"
  shows "delete_key h rcd lvl k = Inr (Some (h[m := CObj (AList.delete k mf)])) \<and>
     stored_value (h[m := CObj (AList.delete k mf)]) rcd lvl k = Inr JNull"
proof -
  from d obtain r rf where r: "rcd = JRef r" "r < length h" "h ! r = CObj rf"
    "map_of rf ''data'' = Some (JRef b)"
    unfolding rd_Inr_iff by auto
  from l obtain bf where b: "b < length h" "h ! b = CObj bf"
    "map_of bf (level_name lvl) = Some (JRef m)"
    unfolding rd_Inr_iff by auto
  have d': "rd h (Some (JRef r)) ''data'' = Inr (Some (JRef b))"
    using d r(1) by (simp del: rd.simps)
  have ml: "m < length h" "h ! m = CObj mf" "m \<noteq> r"
    using m r(1) by (auto simp: cell_at_def split: if_splits)
  define h' where "h' = h[m := CObj (AList.delete k mf)]"
  have h': "length h' = length h" "h' ! r = CObj rf" "h' ! b = CObj bf"
    "h' ! m = CObj (AList.delete k mf)"
    using r b m ml by (simp_all add: h'_def)
  have w: "delete_key h rcd lvl k = Inr (Some h')"
    using del_obj [OF ml(1,2), of k]
    by (simp add: delete_key_def r(1) d' l h'_def del: rd.simps del.simps)
  have s: "stored_value h' rcd lvl k = Inr JNull"
    using r(1,2,4) b(1,3) ml(1) h'
    by (simp add: stored_value_def and_prop_def rd_obj delete_conv' del: rd.simps)
  from w s show ?thesis by (simp add: h'_def)
qed



lemma bind_err_Inr_iff:
  "bind_err x f = Inr y \<longleftrightarrow> (\<exists>a. x = Inr a \<and> f a = Inr y)"
  by (cases x) simp_all

lemma those_map_defined:
  "those (map g xs) = Some ys \<Longrightarrow> x \<in> set xs \<Longrightarrow> g x \<noteq> None"
  by (induction xs arbitrary: ys) (auto split: option.splits)

lemma copy_annotations_cong:
  "heap s' = heap s \<Longrightarrow> annotations s' = annotations s
     \<Longrightarrow> copy_annotations s' p = copy_annotations s p"
  by (simp add: copy_annotations_def cong: option.case_cong)

lemma build_view_annotation:
  assumes v: "build_view s p rcd = Inr view"
    and t: "map_of (annotations s) p = Some tbl" "map_of tbl k = Some a"
  shows "view_annotation view k = reify [] (heap s) a \<and> reify [] (heap s) a \<noteq> None"
proof -
  let ?g = "\<lambda>kv. map_option (Pair (fst kv)) (reify [] (heap s) (snd kv))"
  from v obtain c ann where c: "deepCopy (heap s) rcd = Inr c" "copy_annotations s p = Inr ann"
    by (auto simp: build_view_def bind_err_Inr_iff)
  from c(2) t(1) obtain afs where afs: "those (map ?g tbl) = Some afs" "ann = TObj afs"
    by (auto simp: copy_annotations_def split: option.splits)
  from v c obtain fs where fs: "c = TObj fs"
    "view = \<lparr>content = TObj (AList.update ''annotations'' ann fs), plugin = p\<rparr>"
    by (auto simp: build_view_def split: json.splits)
  have "(k, a) \<in> set tbl"
    using t(2) by (rule map_of_SomeD)
  from those_map_defined [OF afs(1) this] have d: "reify [] (heap s) a \<noteq> None"
    by simp
  have "map_of afs k = reify [] (heap s) a"
    using map_of_those_map [OF afs(1), of k] t(2) by simp
  then have "view_annotation view k = reify [] (heap s) a"
    using fs(2) afs(2) by (simp add: view_annotation_def update_conv')
  with d show ?thesis by simp
qed

lemma annotate_table:
  "\<exists>tbl. map_of (annotations (annotate s p k a)) p = Some tbl \<and> map_of tbl k = Some a"
  by (simp add: annotate_def emit_def update_conv')

subsection \<open>The signal\<close>

lemma chain_state: "snd (chain x ks) = snd x"
  by (cases x; cases "fst x") auto




lemma quiet_trans: "quiet s s' \<Longrightarrow> quiet s' s'' \<Longrightarrow> quiet s s''"
  by (simp add: quiet_def)














subsection \<open>Waiting for the gate\<close>

text \<open>
  No method but \<open>setDB\<close> touches the datastore reference or the gate, and the handlers
  of a promise that waits for the gate run in no step before the gate is open.
\<close>

lemma same_gate_refl: "same_gate s s"
  by (simp add: same_gate_def)

lemma same_gate_trans: "same_gate s s' \<Longrightarrow> same_gate s' s'' \<Longrightarrow> same_gate s s''"
  by (simp add: same_gate_def)

lemma gate_save: "same_gate s (snd (save s p))"
  by (simp add: same_gate_def save_def split: option.splits)

lemma gate_load: "same_gate s (snd (load s p r))"
  by (simp add: same_gate_def load_def split: option.splits sum.splits)

lemma gate_install: "same_gate s (snd (install s p r))"
  by (simp add: same_gate_def install_def Let_def
      split: result.splits sum.splits option.splits jval.splits)

lemma gate_get: "same_gate s (snd (get s p k lvl))"
  using gate_load [of s p False]
  by (simp add: get_def chain_state same_gate_refl split: option.splits sum.splits)

lemma gate_set: "same_gate s (snd (set_setting s p k v lvl))"
proof (cases "map_of (plugins s) p")
  case None
  then show ?thesis
    using gate_load [of s p False] by (simp add: set_setting_def chain_state)
next
  case (Some rcd)
  show ?thesis
  proof (cases "write_key (heap s) rcd lvl k v")
    case (Inl e)
    with Some show ?thesis by (simp add: set_setting_def same_gate_def)
  next
    case (Inr h')
    with Some show ?thesis
      using gate_save [of "s\<lparr>heap := h'\<rparr>" p] by (simp add: set_setting_def same_gate_def)
  qed
qed

lemma gate_remove: "same_gate s (snd (remove s p k lvl))"
proof (cases "map_of (plugins s) p")
  case None
  then show ?thesis by (simp add: remove_def same_gate_def)
next
  case (Some rcd)
  show ?thesis
  proof (cases "delete_key (heap s) rcd lvl k")
    case (Inl e)
    with Some show ?thesis by (simp add: remove_def same_gate_def)
  next
    case (Inr x)
    with Some show ?thesis
      using gate_save [of "s\<lparr>heap := the x\<rparr>" p]
      by (cases x) (simp_all add: remove_def same_gate_def)
  qed
qed

lemma gate_upload: "same_gate s (snd (upload s rcd))"
proof (cases "rd (heap s) (Some rcd) ''id''")
  case (Inl e)
  then show ?thesis by (simp add: upload_def same_gate_def)
next
  case (Inr x)
  show ?thesis
  proof (cases "\<exists>i. x = Some (JStr i)")
    case True
    then obtain i where "x = Some (JStr i)" by blast
    with Inr show ?thesis
      using gate_save [of "s\<lparr>plugins := AList.update i rcd (plugins s)\<rparr>" i]
      by (simp add: upload_def same_gate_def)
  next
    case False
    with Inr show ?thesis
      by (simp add: upload_def same_gate_def split: option.splits jval.splits)
  qed
qed

lemma gate_annotate: "same_gate s (annotate s p k a)"
  by (simp add: same_gate_def annotate_def emit_def)

lemma gate_run_kont: "same_gate s (snd (run_kont k r s))"
  by (cases k) (simp_all add: gate_load gate_install gate_get gate_set, simp add: same_gate_def emit_def)

lemma gate_run_konts: "same_gate s (snd (run_konts ks r s))"
proof (induction ks arbitrary: r s)
  case Nil
  show ?case by (simp add: same_gate_def)
next
  case (Cons k ks)
  obtain out s' where o: "run_kont k r s = (out, s')"
    by (cases "run_kont k r s")
  have g: "same_gate s s'"
    using gate_run_kont [of s k r] o by simp
  show ?case
  proof (cases out)
    case (Resolved r')
    with o g Cons.IH [of s' r'] show ?thesis
      by (auto intro: same_gate_trans)
  qed (use o g in simp_all)
qed

lemma gate_settle: "same_gate s (snd (settle res ks s))"
  by (cases res) (simp_all add: gate_run_konts same_gate_refl)

lemma gate_perform: "\<forall>d. c \<noteq> CSetDB d \<Longrightarrow> same_gate s (snd (perform c s))"
  by (cases c)
    (simp_all add: gate_load gate_get gate_set gate_remove gate_upload gate_annotate)

lemma first_index_Some:
  "first_index P xs = Some i \<Longrightarrow> i < length xs \<and> P (xs ! i)"
proof (induction xs arbitrary: i)
  case Nil
  then show ?case by simp
next
  case (Cons x xs)
  then show ?case
    by (cases "P x") auto
qed

lemma first_index_fresh:
  "(\<And>x. x \<in> set xs \<Longrightarrow> \<not> P x) \<Longrightarrow> P y \<Longrightarrow> first_index P (xs @ [y]) = Some (length xs)"
  by (induction xs) simp_all

lemma step_keeps_waiting:
  assumes g: "datastore (reg \<sigma>) = None" "\<not> ready (reg \<sigma>)"
    and t: "t < length (tasks \<sigma>)" "tasks \<sigma> ! t = Pending WReady ks"
    and e: "\<forall>d. e \<noteq> Call (CSetDB d)"
  shows "datastore (reg (step e \<sigma>)) = None \<and> \<not> ready (reg (step e \<sigma>))
    \<and> t < length (tasks (step e \<sigma>)) \<and> tasks (step e \<sigma>) ! t = Pending WReady ks"
proof (cases e)
  case (Call c)
  with e have "\<forall>d. c \<noteq> CSetDB d" by simp
  from gate_perform [OF this, of "reg \<sigma>"] show ?thesis
    using Call g t by (simp add: same_gate_def split_beta nth_append)
next
  case (Settle i res)
  show ?thesis
  proof (cases "first_index (waits_on i) (tasks \<sigma>)")
    case None
    with Settle g t show ?thesis by simp
  next
    case (Some t')
    from first_index_Some [OF Some] t have "t' \<noteq> t" by auto
    then show ?thesis
      using Settle Some g t gate_settle [of "reg \<sigma>" res "konts_of (tasks \<sigma> ! t')"]
      by (simp add: resume_def same_gate_def split_beta)
  qed
next
  case Microtask
  show ?thesis
  proof (cases "first_index (runnable (reg \<sigma>)) (tasks \<sigma>)")
    case None
    with Microtask g t show ?thesis by simp
  next
    case (Some t')
    from first_index_Some [OF Some] t g have "t' \<noteq> t" by auto
    then show ?thesis
      using Microtask Some g t
        gate_settle [of "reg \<sigma>" "Inr (input_of (tasks \<sigma> ! t'))" "konts_of (tasks \<sigma> ! t')"]
      by (simp add: resume_def same_gate_def split_beta)
  qed
next
  case (Connect sl)
  with g t show ?thesis by (simp add: connect_def)
next
  case (Disconnect sl)
  with g t show ?thesis by (simp add: disconnect_def)
next
  case (Alloc c)
  with g t show ?thesis by simp
next
  case (Mutate a c)
  with g t show ?thesis by simp
qed

lemma pending_until_attach:
  assumes "datastore (reg \<sigma>) = None" "\<not> ready (reg \<sigma>)"
    and "t < length (tasks \<sigma>)" "tasks \<sigma> ! t = Pending WReady ks"
    and "\<forall>e \<in> set es. \<forall>d. e \<noteq> Call (CSetDB d)"
  shows "tasks (run es \<sigma>) ! t = Pending WReady ks \<and> datastore (reg (run es \<sigma>)) = None"
  using assms
proof (induction es arbitrary: \<sigma>)
  case Nil
  then show ?case by simp
next
  case (Cons e es)
  from Cons.prems have e: "\<forall>d. e \<noteq> Call (CSetDB d)"
    and es: "\<forall>e \<in> set es. \<forall>d. e \<noteq> Call (CSetDB d)"
    by simp_all
  from step_keeps_waiting [OF Cons.prems(1-4) e]
  have s: "datastore (reg (step e \<sigma>)) = None" "\<not> ready (reg (step e \<sigma>))"
    "t < length (tasks (step e \<sigma>))" "tasks (step e \<sigma>) ! t = Pending WReady ks"
    by simp_all
  from Cons.IH [OF s es] show ?case by simp
qed

lemma load_waits_for_gate:
  "datastore s = None \<Longrightarrow> reload \<or> map_of (plugins s) p = None
     \<Longrightarrow> load s p reload = (Pending WReady [KLoad p], s)"
  by (auto simp: load_def)

lemma get_waits_for_gate:
  "datastore s = None \<Longrightarrow> map_of (plugins s) p = None
     \<Longrightarrow> get s p k lvl = (Pending WReady [KLoad p, KGet p k lvl], s)"
  by (simp add: get_def load_def)

text \<open>
  A call of \<open>load\<close> or \<open>get\<close> that has to wait for the gate is still pending after any
  events among which there is no \<open>setDB\<close>.
\<close>

lemma call_waits_until_attach:
  assumes g: "datastore (reg \<sigma>) = None" "\<not> ready (reg \<sigma>)"
    and c: "c = CLoad p reload \<and> (reload \<or> map_of (plugins (reg \<sigma>)) p = None) \<and> ks = [KLoad p]
         \<or> c = CGet p k lvl \<and> map_of (plugins (reg \<sigma>)) p = None \<and> ks = [KLoad p, KGet p k lvl]"
    and es: "\<forall>e \<in> set es. \<forall>d. e \<noteq> Call (CSetDB d)"
  shows "tasks (run (Call c # es) \<sigma>) ! length (tasks \<sigma>) = Pending WReady ks"
proof -
  have p: "perform c (reg \<sigma>) = (Pending WReady ks, reg \<sigma>)"
    using c g by (auto simp: load_waits_for_gate get_waits_for_gate)
  let ?\<sigma> = "step (Call c) \<sigma>"
  have s: "datastore (reg ?\<sigma>) = None" "\<not> ready (reg ?\<sigma>)"
    "length (tasks \<sigma>) < length (tasks ?\<sigma>)" "tasks ?\<sigma> ! length (tasks \<sigma>) = Pending WReady ks"
    using p g by simp_all
  from pending_until_attach [OF s es] show ?thesis by simp
qed

subsection \<open>Promises wait for calls that were made\<close>

lemma logged_iff:
  "logged x \<longleftrightarrow> (\<forall>i ks. fst x = Pending (WCall i) ks \<longrightarrow> i < length (calls (snd x)))"
proof (cases x)
  case (Pair out s)
  show ?thesis
  proof (cases out)
    case (Pending w ks)
    with Pair show ?thesis by (cases w) simp_all
  qed (use Pair in simp_all)
qed

lemma logged_chain: "logged x \<Longrightarrow> logged (chain x ks)"
  by (cases x; cases "fst x") (auto simp: logged_iff)

lemma log_save: "logged (save s p) \<and> length (calls s) \<le> length (calls (snd (save s p)))"
  by (simp add: logged_iff save_def split: option.splits)

lemma log_load: "logged (load s p r) \<and> length (calls s) \<le> length (calls (snd (load s p r)))"
  by (simp add: logged_iff load_def split: option.splits sum.splits)

lemma log_install:
  "logged (install s p r) \<and> length (calls s) \<le> length (calls (snd (install s p r)))"
  by (simp add: logged_iff install_def Let_def
      split: result.splits sum.splits option.splits jval.splits)

lemma log_get: "logged (get s p k lvl) \<and> length (calls s) \<le> length (calls (snd (get s p k lvl)))"
proof (cases "map_of (plugins s) p")
  case None
  then show ?thesis
    using log_load [of s p False] by (simp add: get_def logged_chain chain_state)
next
  case (Some rcd)
  then show ?thesis
    by (simp add: get_def logged_iff split: sum.splits)
qed

lemma log_set:
  "logged (set_setting s p k v lvl)
     \<and> length (calls s) \<le> length (calls (snd (set_setting s p k v lvl)))"
proof (cases "map_of (plugins s) p")
  case None
  then show ?thesis
    using log_load [of s p False] by (simp add: set_setting_def logged_chain chain_state)
next
  case (Some rcd)
  show ?thesis
  proof (cases "write_key (heap s) rcd lvl k v")
    case (Inl e)
    with Some show ?thesis by (simp add: set_setting_def logged_iff)
  next
    case (Inr h')
    with Some show ?thesis
      using log_save [of "s\<lparr>heap := h'\<rparr>" p] by (simp add: set_setting_def)
  qed
qed

lemma log_remove:
  "logged (remove s p k lvl) \<and> length (calls s) \<le> length (calls (snd (remove s p k lvl)))"
proof (cases "map_of (plugins s) p")
  case None
  then show ?thesis by (simp add: remove_def logged_iff)
next
  case (Some rcd)
  show ?thesis
  proof (cases "delete_key (heap s) rcd lvl k")
    case (Inl e)
    with Some show ?thesis by (simp add: remove_def logged_iff)
  next
    case (Inr x)
    with Some show ?thesis
      using log_save [of "s\<lparr>heap := the x\<rparr>" p]
      by (cases x) (simp_all add: remove_def logged_iff)
  qed
qed

lemma log_upload:
  "logged (upload s rcd) \<and> length (calls s) \<le> length (calls (snd (upload s rcd)))"
proof (cases "rd (heap s) (Some rcd) ''id''")
  case (Inl e)
  then show ?thesis by (simp add: upload_def logged_iff)
next
  case (Inr x)
  show ?thesis
  proof (cases "\<exists>i. x = Some (JStr i)")
    case True
    then obtain i where "x = Some (JStr i)" by blast
    with Inr show ?thesis
      using log_save [of "s\<lparr>plugins := AList.update i rcd (plugins s)\<rparr>" i]
      by (simp add: upload_def)
  next
    case False
    with Inr show ?thesis
      by (simp add: upload_def logged_iff split: option.splits jval.splits)
  qed
qed

lemma log_run_kont:
  "logged (run_kont k r s) \<and> length (calls s) \<le> length (calls (snd (run_kont k r s)))"
  by (cases k) (simp_all add: log_load log_install log_get log_set, simp add: logged_iff emit_def)

lemma log_run_konts:
  "logged (run_konts ks r s) \<and> length (calls s) \<le> length (calls (snd (run_konts ks r s)))"
proof (induction ks arbitrary: r s)
  case Nil
  show ?case by (simp add: logged_iff)
next
  case (Cons k ks)
  obtain out s' where o: "run_kont k r s = (out, s')"
    by (cases "run_kont k r s")
  have g: "logged (out, s')" "length (calls s) \<le> length (calls s')"
    using log_run_kont [of k r s] o by simp_all
  show ?case
  proof (cases out)
    case (Resolved r')
    with o g Cons.IH [of r' s'] show ?thesis
      by auto
  next
    case (Pending w ks')
    with o g show ?thesis by (simp add: logged_iff)
  qed (use o g in \<open>simp_all add: logged_iff\<close>)
qed

lemma log_settle:
  "logged (settle res ks s) \<and> length (calls s) \<le> length (calls (snd (settle res ks s)))"
  by (cases res) (simp_all add: log_run_konts)

lemma log_perform:
  "logged (perform c s) \<and> length (calls s) \<le> length (calls (snd (perform c s)))"
proof (cases c)
  case (CAnnotate p k a)
  then show ?thesis by (simp add: logged_iff annotate_def emit_def)
next
  case (CSetDB d)
  then show ?thesis by (simp add: logged_iff setDB_def split: option.splits)
qed (simp_all add: log_load log_get log_set log_remove log_upload)

lemma logged_mono:
  "logged (out, s) \<Longrightarrow> length (calls s) \<le> length (calls s') \<Longrightarrow> logged (out, s')"
  by (auto simp: logged_iff)

lemma waits_logged_resume:
  assumes w: "waits_logged \<sigma>" and t: "t < length (tasks \<sigma>)"
  shows "waits_logged (resume t res \<sigma>)"
proof -
  obtain out s' where o: "settle res (konts_of (tasks \<sigma> ! t)) (reg \<sigma>) = (out, s')"
    by (cases "settle res (konts_of (tasks \<sigma> ! t)) (reg \<sigma>)")
  have g: "logged (out, s')" "length (calls (reg \<sigma>)) \<le> length (calls s')"
    using log_settle [of res "konts_of (tasks \<sigma> ! t)" "reg \<sigma>"] o by simp_all
  have r: "resume t res \<sigma> = \<lparr>reg = s', tasks = (tasks \<sigma>)[t := out]\<rparr>"
    using o by (simp add: resume_def)
  show ?thesis
    unfolding waits_logged_def r
  proof
    fix x
    assume "x \<in> set (tasks \<lparr>reg = s', tasks = (tasks \<sigma>)[t := out]\<rparr>)"
    then have "x = out \<or> x \<in> set (tasks \<sigma>)"
      using set_update_subset_insert [of "tasks \<sigma>" t out] by auto
    then show "logged (x, reg \<lparr>reg = s', tasks = (tasks \<sigma>)[t := out]\<rparr>)"
      using g w logged_mono [of x "reg \<sigma>" s'] by (auto simp: waits_logged_def)
  qed
qed

lemma waits_logged_step: "waits_logged \<sigma> \<Longrightarrow> waits_logged (step e \<sigma>)"
proof (cases e)
  case (Call c)
  assume w: "waits_logged \<sigma>"
  obtain out s' where o: "perform c (reg \<sigma>) = (out, s')"
    by (cases "perform c (reg \<sigma>)")
  have g: "logged (out, s')" "length (calls (reg \<sigma>)) \<le> length (calls s')"
    using log_perform [of c "reg \<sigma>"] o by simp_all
  show ?thesis
    using Call o g w logged_mono [of _ "reg \<sigma>" s'] by (auto simp: waits_logged_def)
next
  case (Settle i res)
  assume w: "waits_logged \<sigma>"
  show ?thesis
  proof (cases "first_index (waits_on i) (tasks \<sigma>)")
    case None
    with Settle w show ?thesis by simp
  next
    case (Some t)
    with Settle w first_index_Some [OF Some] show ?thesis
      by (simp add: waits_logged_resume)
  qed
next
  case Microtask
  assume w: "waits_logged \<sigma>"
  show ?thesis
  proof (cases "first_index (runnable (reg \<sigma>)) (tasks \<sigma>)")
    case None
    with Microtask w show ?thesis by simp
  next
    case (Some t)
    with Microtask w first_index_Some [OF Some] show ?thesis
      by (simp add: waits_logged_resume)
  qed
qed (auto simp: waits_logged_def logged_iff connect_def disconnect_def)

lemma waits_logged_run: "waits_logged \<sigma> \<Longrightarrow> waits_logged (run es \<sigma>)"
  by (induction es arbitrary: \<sigma>) (simp_all add: waits_logged_step)

lemma waits_logged_init: "waits_logged init_sys"
  by (simp add: waits_logged_def init_sys_def)

text \<open>
  In every state the registry reaches from its initial state, no promise waits for the
  datastore call that will be made next.
\<close>

lemma next_call_fresh:
  "\<forall>out \<in> set (tasks (run es init_sys)).
     \<not> waits_on (length (calls (reg (run es init_sys)))) out"
proof
  fix out
  assume o: "out \<in> set (tasks (run es init_sys))"
  have "waits_logged (run es init_sys)"
    by (simp add: waits_logged_run waits_logged_init)
  with o have l: "logged (out, reg (run es init_sys))"
    by (simp add: waits_logged_def)
  show "\<not> waits_on (length (calls (reg (run es init_sys)))) out"
  proof (cases out)
    case (Pending w ks)
    with l show ?thesis
      by (cases w) (auto simp: logged_iff)
  qed simp_all
qed

section \<open>The claims\<close>

subsection \<open>Writing a setting and reading it back\<close>




subsection \<open>Reading a setting that is not there\<close>



subsection \<open>The retry of load after the gate\<close>

text \<open>
  Claim C3. The handler that \<open>load\<close> chains on the gate is \<open>() => this.load(plugin)\<close>:
  it does not pass on the \<open>reload\<close> argument of the call. The registry below has no
  datastore; \<open>load('pkg.a', true)\<close> is called and waits; in the same turn \<open>setDB\<close> attaches
  a datastore and \<open>upload\<close> installs the record of \<open>pkg.a\<close>; then the microtask of the gate
  runs. At that moment \<open>load('pkg.a', true)\<close> would call \<open>fetch\<close> (second conjunct), but
  the retry finds the plugin in the cache and resolves from it: the only datastore call in
  the log is the \<open>save\<close> of \<open>upload\<close>.
\<close>

theorem load_retry_drops_reload:
  "tasks (run [Call (CLoad ''pkg.a'' True), Call (CSetDB 0), Call (CUpload (JRef 2))] ex_unattached)
     = [Pending WReady [KLoad ''pkg.a''], Resolved RVoid, Pending (WCall 0) [KEmit ''pkg.a'']]
   \<and> fst (load (reg (run [Call (CLoad ''pkg.a'' True), Call (CSetDB 0), Call (CUpload (JRef 2))]
                      ex_unattached)) ''pkg.a'' True)
     = Pending (WCall 1) [KInstall ''pkg.a'']
   \<and> tasks (run [Call (CLoad ''pkg.a'' True), Call (CSetDB 0), Call (CUpload (JRef 2)), Microtask]
              ex_unattached)
     = [Resolved (RView
          \<lparr>content = TObj [(''id'', TStr ''pkg.a''),
                           (''data'', TObj [(''user'', TObj [(''fontSize'', TNum 12)])]),
                           (''annotations'', TNull)],
           plugin = ''pkg.a''\<rparr>),
        Resolved RVoid, Pending (WCall 0) [KEmit ''pkg.a'']]
   \<and> calls (reg (run [Call (CLoad ''pkg.a'' True), Call (CSetDB 0), Call (CUpload (JRef 2)), Microtask]
                    ex_unattached))
     = [Save ''pkg.a'' (Some (JRef 2))]"
  by (simp add: ex_unattached_def ex_heap_def load_def setDB_def upload_def save_def
      build_view_def copy_annotations_def deepCopy_def cell_at_def resume_def)

subsection \<open>Attaching the datastore\<close>

text \<open>
  Claim C4. \<open>setDB\<close> throws exactly when a datastore is attached already, and then
  changes nothing, so that the first datastore stays. When none is attached it stores the
  datastore and resolves the gate: every promise that waits for the gate can run its
  handlers (the retry of a waiting \<open>load\<close> of a plugin that is not cached calls \<open>fetch\<close>),
  and a second \<open>setDB\<close> throws.
\<close>

theorem setDB_once:
  "((\<exists>e. setDB s d = Inl e) \<longleftrightarrow> datastore s \<noteq> None)
   \<and> (datastore s \<noteq> None \<longrightarrow> perform (CSetDB d) s = (Threw AlreadyHasDatastore, s))
   \<and> (datastore s = None \<longrightarrow>
        setDB s d = Inr (s\<lparr>datastore := Some d, ready := True\<rparr>)
        \<and> (\<forall>ks. runnable (s\<lparr>datastore := Some d, ready := True\<rparr>) (Pending WReady ks))
        \<and> (map_of (plugins s) p = None \<longrightarrow>
              settle (Inr RVoid) [KLoad p] (s\<lparr>datastore := Some d, ready := True\<rparr>) =
                (Pending (WCall (length (calls s))) [KInstall p],
                 s\<lparr>datastore := Some d, ready := True, calls := calls s @ [Fetch p]\<rparr>))
        \<and> perform (CSetDB d') (s\<lparr>datastore := Some d, ready := True\<rparr>)
            = (Threw AlreadyHasDatastore, s\<lparr>datastore := Some d, ready := True\<rparr>))"
  by (auto simp: setDB_def load_def split: option.splits)

theorem setDB_once_witness:
  "datastore init = None
   \<and> setDB init 1 = Inr (init\<lparr>datastore := Some 1, ready := True\<rparr>)
   \<and> settle (Inr RVoid) [KLoad ''pkg.a''] (init\<lparr>datastore := Some 1, ready := True\<rparr>) =
       (Pending (WCall 0) [KInstall ''pkg.a''],
        init\<lparr>datastore := Some 1, ready := True, calls := [Fetch ''pkg.a'']\<rparr>)
   \<and> perform (CSetDB 2) (init\<lparr>datastore := Some 1, ready := True\<rparr>)
       = (Threw AlreadyHasDatastore, init\<lparr>datastore := Some 1, ready := True\<rparr>)
   \<and> datastore ex_state \<noteq> None
   \<and> perform (CSetDB 2) ex_state = (Threw AlreadyHasDatastore, ex_state)"
proof -
  have n: "datastore init = None" "map_of (plugins init) ''pkg.a'' = None" "calls init = []"
    by (simp_all add: init_def)
  have a: "datastore ex_state \<noteq> None"
    by (simp add: ex_state_def)
  show ?thesis
    using setDB_once [where s = init and d = 1 and d' = 2 and p = "''pkg.a''"]
      setDB_once [where s = ex_state and d = 2] n a
    by simp
qed

subsection \<open>A save that fails\<close>

text \<open>
  Claim C5. Let \<open>set\<close>, \<open>remove\<close> or \<open>upload\<close> reach \<open>_save\<close> with a datastore attached.
  The call has then changed the cache (the store as \<open>set\<close> or \<open>remove\<close> wrote it, the
  table as \<open>upload\<close> wrote it) and logged one \<open>save\<close>, and its promise is pending. When
  that \<open>save\<close> fails with \<open>e\<close>, the promise is rejected with \<open>e\<close> itself and the registry
  stays as the call left it: the change is not undone, nothing is emitted and no further
  datastore call is made. The same holds for any chain of handlers that waits for a
  datastore call.
\<close>

theorem save_failure:
  assumes ds: "datastore (reg \<sigma>) = Some d"
    and fresh: "\<forall>out \<in> set (tasks \<sigma>). \<not> waits_on (length (calls (reg \<sigma>))) out"
    and op: "(c = CSet p k v lvl \<and> map_of (plugins (reg \<sigma>)) p = Some rcd
               \<and> write_key (heap (reg \<sigma>)) rcd lvl k v = Inr h'
               \<and> s1 = (reg \<sigma>)\<lparr>heap := h', calls := calls (reg \<sigma>) @ [Save p (Some rcd)]\<rparr>)
           \<or> (c = CRemove p k lvl \<and> map_of (plugins (reg \<sigma>)) p = Some rcd
               \<and> delete_key (heap (reg \<sigma>)) rcd lvl k = Inr (Some h')
               \<and> s1 = (reg \<sigma>)\<lparr>heap := h', calls := calls (reg \<sigma>) @ [Save p (Some rcd)]\<rparr>)
           \<or> (c = CUpload rcd \<and> rd (heap (reg \<sigma>)) (Some rcd) ''id'' = Inr (Some (JStr p))
               \<and> s1 = (reg \<sigma>)\<lparr>plugins := AList.update p rcd (plugins (reg \<sigma>)),
                               calls := calls (reg \<sigma>) @ [Save p (Some rcd)]\<rparr>)"
  shows "step (Call c) \<sigma> =
       \<lparr>reg = s1, tasks = tasks \<sigma> @ [Pending (WCall (length (calls (reg \<sigma>)))) [KEmit p]]\<rparr>
     \<and> step (Settle (length (calls (reg \<sigma>))) (Inl e)) (step (Call c) \<sigma>) =
       \<lparr>reg = s1, tasks = tasks \<sigma> @ [Rejected e]\<rparr>
     \<and> (\<forall>ks s'. settle (Inl e) ks s' = (Rejected e, s'))"
proof -
  let ?n = "length (calls (reg \<sigma>))"
  have p: "perform c (reg \<sigma>) = (Pending (WCall ?n) [KEmit p], s1)"
    using op ds
    by (auto simp: set_setting_def remove_def upload_def save_def update_conv')
  then have 1: "step (Call c) \<sigma> = \<lparr>reg = s1, tasks = tasks \<sigma> @ [Pending (WCall ?n) [KEmit p]]\<rparr>"
    by simp
  have f: "first_index (waits_on ?n) (tasks \<sigma> @ [Pending (WCall ?n) [KEmit p]])
      = Some (length (tasks \<sigma>))"
    using fresh by (intro first_index_fresh) auto
  have 2: "step (Settle ?n (Inl e)) \<lparr>reg = s1, tasks = tasks \<sigma> @ [Pending (WCall ?n) [KEmit p]]\<rparr>
      = \<lparr>reg = s1, tasks = tasks \<sigma> @ [Rejected e]\<rparr>"
    by (simp add: f resume_def)
  from 1 2 show ?thesis by simp
qed

theorem save_failure_witness:
  "step (Settle 0 (Inl (Failure 3))) (step (Call (CSet ''pkg.a'' ''fontSize'' (JNum 14) User)) ex_sys)
     = \<lparr>reg = ex_state\<lparr>heap := ex_heap[0 := CObj [(''fontSize'', JNum 14)]],
                        calls := [Save ''pkg.a'' (Some (JRef 2))]\<rparr>,
        tasks = [Rejected (Failure 3)]\<rparr>
   \<and> step (Settle 0 (Inl (Failure 3))) (step (Call (CRemove ''pkg.a'' ''fontSize'' User)) ex_sys)
     = \<lparr>reg = ex_state\<lparr>heap := ex_heap[0 := CObj []],
                        calls := [Save ''pkg.a'' (Some (JRef 2))]\<rparr>,
        tasks = [Rejected (Failure 3)]\<rparr>
   \<and> step (Settle 0 (Inl (Failure 3))) (step (Call (CUpload (JRef 3))) ex_sys)
     = \<lparr>reg = ex_state\<lparr>plugins := [(''pkg.a'', JRef 2), (''pkg.b'', JRef 3)],
                        calls := [Save ''pkg.b'' (Some (JRef 3))]\<rparr>,
        tasks = [Rejected (Failure 3)]\<rparr>"
proof -
  have ds: "datastore (reg ex_sys) = Some 0"
    and fresh: "\<forall>out \<in> set (tasks ex_sys). \<not> waits_on (length (calls (reg ex_sys))) out"
    and c: "calls ex_state = []" "tasks ex_sys = []" "reg ex_sys = ex_state"
    by (simp_all add: ex_sys_def ex_state_def)
  have a: "map_of (plugins (reg ex_sys)) ''pkg.a'' = Some (JRef 2)"
    by (simp add: ex_sys_def ex_state_def)
  have w: "write_key (heap (reg ex_sys)) (JRef 2) User ''fontSize'' (JNum 14)
      = Inr (ex_heap[0 := CObj [(''fontSize'', JNum 14)]])"
    by (simp add: write_key_def ex_sys_def ex_state_def ex_heap_def cell_at_def)
  have r: "delete_key (heap (reg ex_sys)) (JRef 2) User ''fontSize''
      = Inr (Some (ex_heap[0 := CObj []]))"
    by (simp add: delete_key_def ex_sys_def ex_state_def ex_heap_def cell_at_def)
  have u: "rd (heap (reg ex_sys)) (Some (JRef 3)) ''id'' = Inr (Some (JStr ''pkg.b''))"
    by (simp add: ex_sys_def ex_state_def ex_heap_def cell_at_def)
  have pl: "AList.update ''pkg.b'' (JRef 3) (plugins ex_state)
      = [(''pkg.a'', JRef 2), (''pkg.b'', JRef 3)]"
    by (simp add: ex_state_def)
  have op1: "(CSet ''pkg.a'' ''fontSize'' (JNum 14) User = CSet ''pkg.a'' ''fontSize'' (JNum 14) User
        \<and> map_of (plugins (reg ex_sys)) ''pkg.a'' = Some (JRef 2)
        \<and> write_key (heap (reg ex_sys)) (JRef 2) User ''fontSize'' (JNum 14)
            = Inr (ex_heap[0 := CObj [(''fontSize'', JNum 14)]])
        \<and> (reg ex_sys)\<lparr>heap := ex_heap[0 := CObj [(''fontSize'', JNum 14)]],
              calls := calls (reg ex_sys) @ [Save ''pkg.a'' (Some (JRef 2))]\<rparr>
          = (reg ex_sys)\<lparr>heap := ex_heap[0 := CObj [(''fontSize'', JNum 14)]],
              calls := calls (reg ex_sys) @ [Save ''pkg.a'' (Some (JRef 2))]\<rparr>)
      \<or> (CSet ''pkg.a'' ''fontSize'' (JNum 14) User = CRemove ''pkg.a'' ''fontSize'' User
        \<and> map_of (plugins (reg ex_sys)) ''pkg.a'' = Some (JRef 2)
        \<and> delete_key (heap (reg ex_sys)) (JRef 2) User ''fontSize''
            = Inr (Some (ex_heap[0 := CObj [(''fontSize'', JNum 14)]]))
        \<and> (reg ex_sys)\<lparr>heap := ex_heap[0 := CObj [(''fontSize'', JNum 14)]],
              calls := calls (reg ex_sys) @ [Save ''pkg.a'' (Some (JRef 2))]\<rparr>
          = (reg ex_sys)\<lparr>heap := ex_heap[0 := CObj [(''fontSize'', JNum 14)]],
              calls := calls (reg ex_sys) @ [Save ''pkg.a'' (Some (JRef 2))]\<rparr>)
      \<or> (CSet ''pkg.a'' ''fontSize'' (JNum 14) User = CUpload (JRef 2)
        \<and> rd (heap (reg ex_sys)) (Some (JRef 2)) ''id'' = Inr (Some (JStr ''pkg.a''))
        \<and> (reg ex_sys)\<lparr>heap := ex_heap[0 := CObj [(''fontSize'', JNum 14)]],
              calls := calls (reg ex_sys) @ [Save ''pkg.a'' (Some (JRef 2))]\<rparr>
          = (reg ex_sys)\<lparr>plugins := AList.update ''pkg.a'' (JRef 2) (plugins (reg ex_sys)),
              calls := calls (reg ex_sys) @ [Save ''pkg.a'' (Some (JRef 2))]\<rparr>)"
    using a w by simp
  have op2: "(CRemove ''pkg.a'' ''fontSize'' User = CSet ''pkg.a'' ''fontSize'' (JNum 14) User
        \<and> map_of (plugins (reg ex_sys)) ''pkg.a'' = Some (JRef 2)
        \<and> write_key (heap (reg ex_sys)) (JRef 2) User ''fontSize'' (JNum 14)
            = Inr (ex_heap[0 := CObj []])
        \<and> (reg ex_sys)\<lparr>heap := ex_heap[0 := CObj []],
              calls := calls (reg ex_sys) @ [Save ''pkg.a'' (Some (JRef 2))]\<rparr>
          = (reg ex_sys)\<lparr>heap := ex_heap[0 := CObj []],
              calls := calls (reg ex_sys) @ [Save ''pkg.a'' (Some (JRef 2))]\<rparr>)
      \<or> (CRemove ''pkg.a'' ''fontSize'' User = CRemove ''pkg.a'' ''fontSize'' User
        \<and> map_of (plugins (reg ex_sys)) ''pkg.a'' = Some (JRef 2)
        \<and> delete_key (heap (reg ex_sys)) (JRef 2) User ''fontSize''
            = Inr (Some (ex_heap[0 := CObj []]))
        \<and> (reg ex_sys)\<lparr>heap := ex_heap[0 := CObj []],
              calls := calls (reg ex_sys) @ [Save ''pkg.a'' (Some (JRef 2))]\<rparr>
          = (reg ex_sys)\<lparr>heap := ex_heap[0 := CObj []],
              calls := calls (reg ex_sys) @ [Save ''pkg.a'' (Some (JRef 2))]\<rparr>)
      \<or> (CRemove ''pkg.a'' ''fontSize'' User = CUpload (JRef 2)
        \<and> rd (heap (reg ex_sys)) (Some (JRef 2)) ''id'' = Inr (Some (JStr ''pkg.a''))
        \<and> (reg ex_sys)\<lparr>heap := ex_heap[0 := CObj []],
              calls := calls (reg ex_sys) @ [Save ''pkg.a'' (Some (JRef 2))]\<rparr>
          = (reg ex_sys)\<lparr>plugins := AList.update ''pkg.a'' (JRef 2) (plugins (reg ex_sys)),
              calls := calls (reg ex_sys) @ [Save ''pkg.a'' (Some (JRef 2))]\<rparr>)"
    using a r by simp
  have op3: "(CUpload (JRef 3) = CSet ''pkg.b'' ''fontSize'' (JNum 14) User
        \<and> map_of (plugins (reg ex_sys)) ''pkg.b'' = Some (JRef 3)
        \<and> write_key (heap (reg ex_sys)) (JRef 3) User ''fontSize'' (JNum 14) = Inr ex_heap
        \<and> (reg ex_sys)\<lparr>plugins := AList.update ''pkg.b'' (JRef 3) (plugins (reg ex_sys)),
              calls := calls (reg ex_sys) @ [Save ''pkg.b'' (Some (JRef 3))]\<rparr>
          = (reg ex_sys)\<lparr>heap := ex_heap,
              calls := calls (reg ex_sys) @ [Save ''pkg.b'' (Some (JRef 3))]\<rparr>)
      \<or> (CUpload (JRef 3) = CRemove ''pkg.b'' ''fontSize'' User
        \<and> map_of (plugins (reg ex_sys)) ''pkg.b'' = Some (JRef 3)
        \<and> delete_key (heap (reg ex_sys)) (JRef 3) User ''fontSize'' = Inr (Some ex_heap)
        \<and> (reg ex_sys)\<lparr>plugins := AList.update ''pkg.b'' (JRef 3) (plugins (reg ex_sys)),
              calls := calls (reg ex_sys) @ [Save ''pkg.b'' (Some (JRef 3))]\<rparr>
          = (reg ex_sys)\<lparr>heap := ex_heap,
              calls := calls (reg ex_sys) @ [Save ''pkg.b'' (Some (JRef 3))]\<rparr>)
      \<or> (CUpload (JRef 3) = CUpload (JRef 3)
        \<and> rd (heap (reg ex_sys)) (Some (JRef 3)) ''id'' = Inr (Some (JStr ''pkg.b''))
        \<and> (reg ex_sys)\<lparr>plugins := AList.update ''pkg.b'' (JRef 3) (plugins (reg ex_sys)),
              calls := calls (reg ex_sys) @ [Save ''pkg.b'' (Some (JRef 3))]\<rparr>
          = (reg ex_sys)\<lparr>plugins := AList.update ''pkg.b'' (JRef 3) (plugins (reg ex_sys)),
              calls := calls (reg ex_sys) @ [Save ''pkg.b'' (Some (JRef 3))]\<rparr>)"
    using u by simp
  have A: "step (Settle 0 (Inl (Failure 3)))
        (step (Call (CSet ''pkg.a'' ''fontSize'' (JNum 14) User)) ex_sys)
      = \<lparr>reg = ex_state\<lparr>heap := ex_heap[0 := CObj [(''fontSize'', JNum 14)]],
                        calls := [Save ''pkg.a'' (Some (JRef 2))]\<rparr>,
         tasks = [Rejected (Failure 3)]\<rparr>"
    using conjunct1 [OF conjunct2 [OF save_failure [OF ds fresh op1, of "Failure 3"]]]
    by (simp only: c list.size(3) append_Nil)
  have B: "step (Settle 0 (Inl (Failure 3))) (step (Call (CRemove ''pkg.a'' ''fontSize'' User)) ex_sys)
      = \<lparr>reg = ex_state\<lparr>heap := ex_heap[0 := CObj []],
                        calls := [Save ''pkg.a'' (Some (JRef 2))]\<rparr>,
         tasks = [Rejected (Failure 3)]\<rparr>"
    using conjunct1 [OF conjunct2 [OF save_failure [OF ds fresh op2, of "Failure 3"]]]
    by (simp only: c list.size(3) append_Nil)
  have C: "step (Settle 0 (Inl (Failure 3))) (step (Call (CUpload (JRef 3))) ex_sys)
      = \<lparr>reg = ex_state\<lparr>plugins := [(''pkg.a'', JRef 2), (''pkg.b'', JRef 3)],
                        calls := [Save ''pkg.b'' (Some (JRef 3))]\<rparr>,
         tasks = [Rejected (Failure 3)]\<rparr>"
    using conjunct1 [OF conjunct2 [OF save_failure [OF ds fresh op3, of "Failure 3"]]]
    by (simp only: c list.size(3) append_Nil pl)
  from A B C show ?thesis by blast
qed

subsection \<open>Loading a cached plugin\<close>

text \<open>
  Claim C6. For a plugin in the cache, \<open>load\<close> without \<open>reload\<close> leaves the registry as
  it is (no call of the datastore is logged), and it resolves with a view whose content
  is the deep copy of the cached record with the property \<open>annotations\<close> set to the copy
  of the plugin's annotations as they are in the table at that moment: the view has, for
  every key of that table, the tree of its annotation, and \<open>null\<close> when the plugin has no
  table.
\<close>

theorem load_cached:
  assumes cached: "map_of (plugins s) p = Some rcd"
  shows "snd (load s p False) = s
    \<and> (\<forall>fs a. deepCopy (heap s) rcd = Inr (TObj fs) \<and> copy_annotations s p = Inr a \<longrightarrow>
          load s p False =
            (Resolved (RView \<lparr>content = TObj (AList.update ''annotations'' a fs), plugin = p\<rparr>), s))
    \<and> (\<forall>view s' tbl k a. load s p False = (Resolved (RView view), s')
          \<and> map_of (annotations s) p = Some tbl \<and> map_of tbl k = Some a \<longrightarrow>
          view_annotation view k = reify [] (heap s) a)
    \<and> (map_of (annotations s) p = None \<longrightarrow> copy_annotations s p = Inr TNull)"
proof -
  have 1: "snd (load s p False) = s"
    using cached by (auto simp: load_def split: sum.splits)
  have 2: "load s p False =
      (Resolved (RView \<lparr>content = TObj (AList.update ''annotations'' a fs), plugin = p\<rparr>), s)"
    if "deepCopy (heap s) rcd = Inr (TObj fs)" "copy_annotations s p = Inr a" for fs a
    using cached that by (simp add: load_def build_view_def)
  have 3: "view_annotation view k = reify [] (heap s) a"
    if l: "load s p False = (Resolved (RView view), s')"
      and t: "map_of (annotations s) p = Some tbl" "map_of tbl k = Some a" for view s' tbl k a
  proof -
    from l cached have "build_view s p rcd = Inr view"
      by (auto simp: load_def split: sum.splits)
    from build_view_annotation [OF this t] show ?thesis by simp
  qed
  have 4: "copy_annotations s p = Inr TNull" if "map_of (annotations s) p = None"
    using that by (simp add: copy_annotations_def)
  show ?thesis
    using 1 2 3 4 by (intro conjI allI impI; (elim conjE)?; blast)
qed

theorem load_cached_witness:
  "load (annotate ex_state ''pkg.a'' ''fontSize'' (JRef 4)) ''pkg.a'' False =
     (Resolved (RView
        \<lparr>content = TObj [(''id'', TStr ''pkg.a''),
                         (''data'', TObj [(''user'', TObj [(''fontSize'', TNum 12)])]),
                         (''annotations'', TObj [(''fontSize'', TObj [(''label'', TStr ''Size'')])])],
         plugin = ''pkg.a''\<rparr>),
      annotate ex_state ''pkg.a'' ''fontSize'' (JRef 4))"
proof -
  let ?s = "annotate ex_state ''pkg.a'' ''fontSize'' (JRef 4)"
  have c: "map_of (plugins ?s) ''pkg.a'' = Some (JRef 2)"
    by (simp add: annotate_def emit_def ex_state_def)
  have h: "heap ?s = ex_heap"
    by (simp add: annotate_def emit_def ex_state_def)
  have r: "deepCopy (heap ?s) (JRef 2) =
      Inr (TObj [(''id'', TStr ''pkg.a''),
                 (''data'', TObj [(''user'', TObj [(''fontSize'', TNum 12)])])])"
    by (simp add: h deepCopy_def ex_heap_def)
  have a: "copy_annotations ?s ''pkg.a'' = Inr (TObj [(''fontSize'', TObj [(''label'', TStr ''Size'')])])"
    by (simp add: copy_annotations_def annotate_def emit_def ex_state_def ex_heap_def)
  show ?thesis
    using conjunct1 [OF conjunct2 [OF load_cached [OF c]]] r a by simp
qed

subsection \<open>Annotations\<close>

text \<open>
  Claim C7. \<open>annotate\<close> puts the annotation into the table of the plugin under the key,
  creating that table when there is none; it changes neither the store nor the cache, calls
  no datastore, and emits the plugin's name to the connected slots whether the plugin is
  cached or not. A \<open>load\<close> that follows gives a view whose annotation for the key is the
  tree of the annotation: at once when the plugin is cached; and when it was never loaded,
  \<open>load\<close> waits for the gate or calls \<open>fetch\<close>, and the handler of \<open>fetch\<close> builds the
  view with the annotation that the table holds.
\<close>

theorem annotate_then_load:
  "(\<exists>tbl. map_of (annotations (annotate s p k a)) p = Some tbl \<and> map_of tbl k = Some a)
   \<and> heap (annotate s p k a) = heap s
   \<and> plugins (annotate s p k a) = plugins s
   \<and> datastore (annotate s p k a) = datastore s
   \<and> calls (annotate s p k a) = calls s
   \<and> delivered (annotate s p k a) = delivered s @ map (\<lambda>sl. (sl, p)) (slots s)
   \<and> (\<forall>rcd fs ann. map_of (plugins s) p = Some rcd \<and> deepCopy (heap s) rcd = Inr (TObj fs)
          \<and> copy_annotations (annotate s p k a) p = Inr ann \<longrightarrow>
        (\<exists>view. load (annotate s p k a) p False = (Resolved (RView view), annotate s p k a)
           \<and> view_annotation view k = reify [] (heap s) a \<and> reify [] (heap s) a \<noteq> None))
   \<and> (map_of (plugins s) p = None \<and> datastore s = None \<longrightarrow>
        load (annotate s p k a) p False = (Pending WReady [KLoad p], annotate s p k a))
   \<and> (map_of (plugins s) p = None \<and> datastore s \<noteq> None \<longrightarrow>
        load (annotate s p k a) p False =
          (Pending (WCall (length (calls s))) [KInstall p],
           (annotate s p k a)\<lparr>calls := calls s @ [Fetch p]\<rparr>))
   \<and> (\<forall>s2 rcd i fs ann. annotations s2 = annotations (annotate s p k a)
          \<and> rd (heap s2) (Some rcd) ''id'' = Inr (Some (JStr i))
          \<and> deepCopy (heap s2) rcd = Inr (TObj fs) \<and> copy_annotations s2 p = Inr ann \<longrightarrow>
        (\<exists>view. settle (Inr (RRecord rcd)) [KInstall p] s2 =
             (Resolved (RView view), s2\<lparr>plugins := AList.update i rcd (plugins s2)\<rparr>)
           \<and> view_annotation view k = reify [] (heap s2) a \<and> reify [] (heap s2) a \<noteq> None))"
proof -
  let ?s1 = "annotate s p k a"
  have f: "heap ?s1 = heap s" "plugins ?s1 = plugins s" "datastore ?s1 = datastore s"
    "calls ?s1 = calls s" "delivered ?s1 = delivered s @ map (\<lambda>sl. (sl, p)) (slots s)"
    by (simp_all add: annotate_def emit_def)
  obtain tbl where tbl: "map_of (annotations ?s1) p = Some tbl" "map_of tbl k = Some a"
    using annotate_table by blast
  have cachedcase: "\<exists>view. load ?s1 p False = (Resolved (RView view), ?s1)
           \<and> view_annotation view k = reify [] (heap s) a \<and> reify [] (heap s) a \<noteq> None"
    if c: "map_of (plugins s) p = Some rcd" and r: "deepCopy (heap s) rcd = Inr (TObj fs)"
      and n: "copy_annotations ?s1 p = Inr ann" for rcd fs ann
  proof -
    let ?view = "\<lparr>content = TObj (AList.update ''annotations'' ann fs), plugin = p\<rparr>"
    have b: "build_view ?s1 p rcd = Inr ?view"
      using r n by (simp add: build_view_def f)
    have l: "load ?s1 p False = (Resolved (RView ?view), ?s1)"
      using c b by (simp add: load_def f)
    from build_view_annotation [OF b tbl] l show ?thesis
      by (simp add: f)
  qed
  have waitcase: "load ?s1 p False = (Pending WReady [KLoad p], ?s1)"
    if "map_of (plugins s) p = None" "datastore s = None"
    using that by (simp add: load_def f)
  have fetchcase: "load ?s1 p False =
      (Pending (WCall (length (calls s))) [KInstall p], ?s1\<lparr>calls := calls s @ [Fetch p]\<rparr>)"
    if "map_of (plugins s) p = None" "datastore s \<noteq> None"
    using that by (auto simp: load_def f)
  have installcase: "\<exists>view. settle (Inr (RRecord rcd)) [KInstall p] s2 =
             (Resolved (RView view), s2\<lparr>plugins := AList.update i rcd (plugins s2)\<rparr>)
           \<and> view_annotation view k = reify [] (heap s2) a \<and> reify [] (heap s2) a \<noteq> None"
    if e: "annotations s2 = annotations ?s1"
      and i: "rd (heap s2) (Some rcd) ''id'' = Inr (Some (JStr i))"
      and r: "deepCopy (heap s2) rcd = Inr (TObj fs)"
      and n: "copy_annotations s2 p = Inr ann" for s2 rcd i fs ann
  proof -
    let ?s3 = "s2\<lparr>plugins := AList.update i rcd (plugins s2)\<rparr>"
    let ?view = "\<lparr>content = TObj (AList.update ''annotations'' ann fs), plugin = p\<rparr>"
    have n': "copy_annotations ?s3 p = Inr ann"
      using n copy_annotations_cong [of ?s3 s2 p] by simp
    have b: "build_view ?s3 p rcd = Inr ?view"
      using r n' by (simp add: build_view_def)
    have t3: "map_of (annotations ?s3) p = Some tbl"
      using tbl(1) e by simp
    have l: "settle (Inr (RRecord rcd)) [KInstall p] s2 = (Resolved (RView ?view), ?s3)"
      using i b by (simp add: install_def Let_def del: rd.simps)
    from build_view_annotation [OF b t3 tbl(2)] l show ?thesis
      by simp
  qed
  show ?thesis
    using annotate_table [of s p k a] f cachedcase waitcase fetchcase installcase
    by (intro conjI allI impI; (elim conjE)?; blast)
qed

theorem annotate_then_load_witness:
  "load (annotate ex_state ''pkg.a'' ''fontSize'' (JRef 4)) ''pkg.a'' False =
     (Resolved (RView
        \<lparr>content = TObj [(''id'', TStr ''pkg.a''),
                         (''data'', TObj [(''user'', TObj [(''fontSize'', TNum 12)])]),
                         (''annotations'', TObj [(''fontSize'', TObj [(''label'', TStr ''Size'')])])],
         plugin = ''pkg.a''\<rparr>),
      annotate ex_state ''pkg.a'' ''fontSize'' (JRef 4))
   \<and> view_annotation
        \<lparr>content = TObj [(''id'', TStr ''pkg.a''),
                         (''data'', TObj [(''user'', TObj [(''fontSize'', TNum 12)])]),
                         (''annotations'', TObj [(''fontSize'', TObj [(''label'', TStr ''Size'')])])],
         plugin = ''pkg.a''\<rparr> ''fontSize''
       = Some (TObj [(''label'', TStr ''Size'')])
   \<and> load (annotate ex_fresh ''pkg.a'' ''fontSize'' (JRef 4)) ''pkg.a'' False =
       (Pending (WCall 0) [KInstall ''pkg.a''],
        (annotate ex_fresh ''pkg.a'' ''fontSize'' (JRef 4))\<lparr>calls := [Fetch ''pkg.a'']\<rparr>)
   \<and> settle (Inr (RRecord (JRef 2))) [KInstall ''pkg.a'']
        ((annotate ex_fresh ''pkg.a'' ''fontSize'' (JRef 4))\<lparr>calls := [Fetch ''pkg.a'']\<rparr>) =
       (Resolved (RView
          \<lparr>content = TObj [(''id'', TStr ''pkg.a''),
                           (''data'', TObj [(''user'', TObj [(''fontSize'', TNum 12)])]),
                           (''annotations'', TObj [(''fontSize'', TObj [(''label'', TStr ''Size'')])])],
           plugin = ''pkg.a''\<rparr>),
        (annotate ex_fresh ''pkg.a'' ''fontSize'' (JRef 4))
          \<lparr>calls := [Fetch ''pkg.a''], plugins := [(''pkg.a'', JRef 2)]\<rparr>)"
proof -
  let ?s1 = "annotate ex_state ''pkg.a'' ''fontSize'' (JRef 4)"
  let ?f1 = "annotate ex_fresh ''pkg.a'' ''fontSize'' (JRef 4)"
  let ?f2 = "?f1\<lparr>calls := [Fetch ''pkg.a'']\<rparr>"
  let ?c = "TObj [(''id'', TStr ''pkg.a''),
                  (''data'', TObj [(''user'', TObj [(''fontSize'', TNum 12)])]),
                  (''annotations'', TObj [(''fontSize'', TObj [(''label'', TStr ''Size'')])])]"
  let ?fs = "[(''id'', TStr ''pkg.a''),
              (''data'', TObj [(''user'', TObj [(''fontSize'', TNum 12)])])]"
  let ?ann = "TObj [(''fontSize'', TObj [(''label'', TStr ''Size'')])]"
  note T = annotate_then_load [of ex_state "''pkg.a''" "''fontSize''" "JRef 4"]
  note F = annotate_then_load [of ex_fresh "''pkg.a''" "''fontSize''" "JRef 4"]
  have c: "map_of (plugins ex_state) ''pkg.a'' = Some (JRef 2)"
    "deepCopy (heap ex_state) (JRef 2) = Inr (TObj ?fs)"
    "copy_annotations ?s1 ''pkg.a'' = Inr ?ann"
    "reify [] (heap ex_state) (JRef 4) = Some (TObj [(''label'', TStr ''Size'')])"
    by (simp_all add: copy_annotations_def annotate_def emit_def deepCopy_def ex_state_def
        ex_heap_def)
  from T c obtain view where
    v: "load ?s1 ''pkg.a'' False = (Resolved (RView view), ?s1)"
      "view_annotation view ''fontSize'' = Some (TObj [(''label'', TStr ''Size'')])"
    by (metis (no_types, lifting))
  have l: "load ?s1 ''pkg.a'' False = (Resolved (RView \<lparr>content = ?c, plugin = ''pkg.a''\<rparr>), ?s1)"
    using c by (simp add: load_def build_view_def annotate_def emit_def)
  have u: "map_of (plugins ex_fresh) ''pkg.a'' = None \<and> datastore ex_fresh \<noteq> None"
    "calls ex_fresh = []"
    by (simp_all add: ex_fresh_def)
  from F u have p: "load ?f1 ''pkg.a'' False = (Pending (WCall 0) [KInstall ''pkg.a''], ?f2)"
    by simp
  have i: "annotations ?f2 = annotations ?f1"
    "rd (heap ?f2) (Some (JRef 2)) ''id'' = Inr (Some (JStr ''pkg.a''))"
    "deepCopy (heap ?f2) (JRef 2) = Inr (TObj ?fs)"
    "copy_annotations ?f2 ''pkg.a'' = Inr ?ann"
    by (simp_all add: copy_annotations_def annotate_def emit_def deepCopy_def ex_fresh_def
        ex_heap_def cell_at_def)
  from F i obtain view2 where
    v2: "settle (Inr (RRecord (JRef 2))) [KInstall ''pkg.a''] ?f2 =
        (Resolved (RView view2), ?f2\<lparr>plugins := AList.update ''pkg.a'' (JRef 2) (plugins ?f2)\<rparr>)"
    by (elim conjE) blast
  have s: "settle (Inr (RRecord (JRef 2))) [KInstall ''pkg.a''] ?f2 =
      (Resolved (RView \<lparr>content = ?c, plugin = ''pkg.a''\<rparr>),
       ?f1\<lparr>calls := [Fetch ''pkg.a''], plugins := [(''pkg.a'', JRef 2)]\<rparr>)"
    by (simp add: install_def build_view_def copy_annotations_def deepCopy_def annotate_def
        emit_def ex_fresh_def ex_heap_def cell_at_def Let_def)
  from v l p s show ?thesis by simp
qed

subsection \<open>Removing what is not there\<close>

text \<open>
  Claim C8, as the code has it. \<open>remove\<close> resolves and leaves the registry as it is (no
  datastore call, nothing emitted) when the plugin is not cached, and when it is cached
  with an object as \<open>data\<close> bundle that has no mapping at the level. In the second case
  \<open>get\<close> then resolves with \<open>null\<close>. In the first case \<open>get\<close> starts a \<open>load\<close>: it waits
  for the gate, or for the \<open>fetch\<close> it has called.
\<close>

theorem remove_noop:
  "(map_of (plugins s) p = None \<longrightarrow>
      remove s p k lvl = (Resolved RVoid, s)
      \<and> (datastore s = None \<longrightarrow>
            get s p k lvl = (Pending WReady [KLoad p, KGet p k lvl], s))
      \<and> (datastore s \<noteq> None \<longrightarrow>
            get s p k lvl = (Pending (WCall (length (calls s))) [KInstall p, KGet p k lvl],
                             s\<lparr>calls := calls s @ [Fetch p]\<rparr>)))
   \<and> (map_of (plugins s) p = Some rcd
        \<and> rd (heap s) (Some rcd) ''data'' = Inr (Some (JRef b))
        \<and> rd (heap s) (Some (JRef b)) (level_name lvl) = Inr m0 \<and> \<not> truthy m0 \<longrightarrow>
      remove s p k lvl = (Resolved RVoid, s)
      \<and> get s p k lvl = (Resolved (RValue TNull), s))"
proof -
  have 1: "remove s p k lvl = (Resolved RVoid, s)" if "map_of (plugins s) p = None"
    using that by (simp add: remove_def)
  have 2: "get s p k lvl = (Pending WReady [KLoad p, KGet p k lvl], s)"
    if "map_of (plugins s) p = None" "datastore s = None"
    using that by (simp add: get_def load_def)
  have 3: "get s p k lvl = (Pending (WCall (length (calls s))) [KInstall p, KGet p k lvl],
                             s\<lparr>calls := calls s @ [Fetch p]\<rparr>)"
    if "map_of (plugins s) p = None" "datastore s \<noteq> None"
    using that by (auto simp: get_def load_def)
  have 4: "remove s p k lvl = (Resolved RVoid, s) \<and> get s p k lvl = (Resolved (RValue TNull), s)"
    if c: "map_of (plugins s) p = Some rcd"
      and d: "rd (heap s) (Some rcd) ''data'' = Inr (Some (JRef b))"
      and l: "rd (heap s) (Some (JRef b)) (level_name lvl) = Inr m0"
      and f: "\<not> truthy m0"
  proof -
    have t: "truthy (Some rcd)"
      using d unfolding rd_Inr_iff by auto
    have r: "remove s p k lvl = (Resolved RVoid, s)"
      using c d l f by (simp add: remove_def delete_key_def del: rd.simps)
    have "stored_value (heap s) rcd lvl k = Inr JNull"
      using t d l f
      by (cases m0) (simp_all add: stored_value_def and_prop_def del: rd.simps)
    then have g: "get s p k lvl = (Resolved (RValue TNull), s)"
      using c by (simp add: get_def deepCopy_def)
    from r g show ?thesis by simp
  qed
  from 1 2 3 4 show ?thesis by blast
qed

theorem remove_noop_witness:
  "remove ex_fresh ''pkg.a'' ''fontSize'' User = (Resolved RVoid, ex_fresh)
   \<and> get ex_fresh ''pkg.a'' ''fontSize'' User =
       (Pending (WCall 0) [KInstall ''pkg.a'', KGet ''pkg.a'' ''fontSize'' User],
        ex_fresh\<lparr>calls := [Fetch ''pkg.a'']\<rparr>)
   \<and> remove ex_state ''pkg.a'' ''fontSize'' System = (Resolved RVoid, ex_state)
   \<and> get ex_state ''pkg.a'' ''fontSize'' System = (Resolved (RValue TNull), ex_state)"
proof -
  have u: "map_of (plugins ex_fresh) ''pkg.a'' = None" "datastore ex_fresh \<noteq> None"
    "calls ex_fresh = []"
    by (simp_all add: ex_fresh_def)
  have c: "map_of (plugins ex_state) ''pkg.a'' = Some (JRef 2)"
    "rd (heap ex_state) (Some (JRef 2)) ''data'' = Inr (Some (JRef 1))"
    "rd (heap ex_state) (Some (JRef 1)) (level_name System) = Inr None"
    "\<not> truthy None"
    by (simp_all add: ex_state_def ex_heap_def cell_at_def)
  show ?thesis
    using remove_noop [of ex_fresh "''pkg.a''" "''fontSize''" User "JRef 2" 1 None]
      remove_noop [of ex_state "''pkg.a''" "''fontSize''" System "JRef 2" 1 None]
      u c
    by simp
qed

text \<open>
  After \<open>remove\<close> on a plugin that is not cached, \<open>get\<close> fetches the record and resolves
  with the value the datastore holds, here 12, not with \<open>null\<close>.
\<close>

theorem remove_noop_counterexample:
  "tasks (run [Call (CRemove ''pkg.a'' ''fontSize'' User),
               Call (CGet ''pkg.a'' ''fontSize'' User),
               Settle 0 (Inr (RRecord (JRef 2)))] ex_fresh_sys)
     = [Resolved RVoid, Resolved (RValue (TNum 12))]
   \<and> calls (reg (run [Call (CRemove ''pkg.a'' ''fontSize'' User)] ex_fresh_sys)) = []"
  by (simp add: ex_fresh_sys_def ex_fresh_def ex_heap_def remove_def get_def load_def
      install_def build_view_def copy_annotations_def stored_value_def and_prop_def
      deepCopy_def cell_at_def resume_def)

subsection \<open>The change signal\<close>




subsection \<open>A record without a bundle\<close>

text \<open>
  Claim C10. When the cached record of a plugin has \<open>data: null\<close>, \<open>set\<close> and \<open>remove\<close>
  throw a TypeError at \<open>bundle[level]\<close>: \<open>set\<close> creates no mapping and \<open>remove\<close> does not
  return its resolved promise. Nothing is changed and the datastore is not called.
\<close>

theorem set_remove_null_bundle:
  assumes "map_of (plugins s) p = Some rcd"
    and "rd (heap s) (Some rcd) ''data'' = Inr (Some JNull)"
  shows "set_setting s p k v lvl = (Threw TypeError, s) \<and> remove s p k lvl = (Threw TypeError, s)"
  using assms
  by (simp add: set_setting_def write_key_def remove_def delete_key_def)

theorem set_remove_null_bundle_witness:
  "set_setting ex_state ''pkg.b'' ''fontSize'' (JNum 14) User = (Threw TypeError, ex_state)
   \<and> remove ex_state ''pkg.b'' ''fontSize'' User = (Threw TypeError, ex_state)"
proof -
  have b: "map_of (plugins ex_state) ''pkg.b'' = Some (JRef 3)"
    by (simp add: ex_state_def)
  have n: "rd (heap ex_state) (Some (JRef 3)) ''data'' = Inr (Some JNull)"
    by (simp add: ex_state_def ex_heap_def cell_at_def)
  show ?thesis
    using set_remove_null_bundle [OF b n] by simp
qed

end
